theory Spec2Isabelle
  imports Complex_Main
begin

section \<open>JavaScript values\<close>

text \<open>
  A JavaScript number: not-a-number, the two infinities, or a finite value. Finite values
  are exact reals: rounding to the 32 or 64 bits of the array is not modelled and the two
  zeros are one (\<open>Fin 0\<close>, which divides like \<open>+0\<close>). The values the processors write
  themselves (\<open>-Infinity\<close> and \<open>0\<close>) are exact in every format.
\<close>

datatype jsnum = NaN | NInf | PInf | Fin real

text \<open>A property that may be absent (\<open>undefined\<close>), \<open>null\<close>, or hold a value.\<close>

datatype 'a js_opt = Undefined | Null | Val 'a

datatype js_error = TypeError | Error string

text \<open>How a call ends: it returns, or it throws. The buffers a call has already
  written keep what was written when it throws, so every call yields the completion
  together with the buffer.\<close>

datatype completion = Returned | Threw js_error

text \<open>\<open>a < b\<close> on numbers: false as soon as one side is \<open>NaN\<close>.\<close>

fun js_lt :: "jsnum \<Rightarrow> jsnum \<Rightarrow> bool" where
  "js_lt NaN _ = False"
| "js_lt _ NaN = False"
| "js_lt (Fin a) (Fin b) = (a < b)"
| "js_lt NInf NInf = False"
| "js_lt NInf _ = True"
| "js_lt _ NInf = False"
| "js_lt PInf _ = False"
| "js_lt _ PInf = True"

text \<open>\<open>a * b\<close>: an infinity times zero is \<open>NaN\<close>, otherwise the signs multiply.\<close>

fun js_mul :: "jsnum \<Rightarrow> jsnum \<Rightarrow> jsnum" where
  "js_mul NaN _ = NaN"
| "js_mul _ NaN = NaN"
| "js_mul (Fin a) (Fin b) = Fin (a * b)"
| "js_mul (Fin a) PInf = (if a = 0 then NaN else if 0 < a then PInf else NInf)"
| "js_mul (Fin a) NInf = (if a = 0 then NaN else if 0 < a then NInf else PInf)"
| "js_mul PInf (Fin b) = (if b = 0 then NaN else if 0 < b then PInf else NInf)"
| "js_mul NInf (Fin b) = (if b = 0 then NaN else if 0 < b then NInf else PInf)"
| "js_mul PInf PInf = PInf"
| "js_mul NInf NInf = PInf"
| "js_mul PInf NInf = NInf"
| "js_mul NInf PInf = NInf"

text \<open>\<open>a / b\<close>: zero over zero and infinity over infinity are \<open>NaN\<close>; a finite
  value over an infinity is zero; a non-zero value over zero is an infinity.\<close>

fun js_div :: "jsnum \<Rightarrow> jsnum \<Rightarrow> jsnum" where
  "js_div NaN _ = NaN"
| "js_div _ NaN = NaN"
| "js_div (Fin a) (Fin b) =
     (if b = 0 then (if a = 0 then NaN else if 0 < a then PInf else NInf)
      else Fin (a / b))"
| "js_div (Fin a) PInf = Fin 0"
| "js_div (Fin a) NInf = Fin 0"
| "js_div PInf (Fin b) = (if 0 \<le> b then PInf else NInf)"
| "js_div NInf (Fin b) = (if 0 \<le> b then NInf else PInf)"
| "js_div PInf PInf = NaN"
| "js_div NInf NInf = NaN"
| "js_div PInf NInf = NaN"
| "js_div NInf PInf = NaN"

section \<open>Score buffers\<close>

text \<open>
  \<open>logits.data\<close> is a typed array (the processors call \<open>subarray\<close> on it): its length
  is fixed, a write at an index beyond the end is dropped and a read there gives
  \<open>undefined\<close>. Token ids and indices are natural numbers.
\<close>

type_synonym buffer = "jsnum list"

text \<open>\<open>data[i] = v\<close>.\<close>

definition typed_set :: "buffer \<Rightarrow> nat \<Rightarrow> jsnum \<Rightarrow> buffer" where
  "typed_set data i v = (if i < length data then data[i := v] else data)"

text \<open>\<open>data.subarray(begin, end).fill(v)\<close>: the view shares the buffer's storage, so
  the fill writes the entries \<open>begin \<le> i < end\<close> of the buffer itself.\<close>

definition subarray_fill :: "buffer \<Rightarrow> nat \<Rightarrow> nat \<Rightarrow> jsnum \<Rightarrow> buffer" where
  "subarray_fill data begin end v =
     map (\<lambda>(i, x). if begin \<le> i \<and> i < end then v else x) (enumerate 0 data)"

text \<open>\<open>data.fill(v)\<close> and \<open>data.subarray(begin).fill(v)\<close>.\<close>

definition fill :: "buffer \<Rightarrow> jsnum \<Rightarrow> buffer" where
  "fill data v = subarray_fill data 0 (length data) v"

definition subarray_from_fill :: "buffer \<Rightarrow> nat \<Rightarrow> jsnum \<Rightarrow> buffer" where
  "subarray_from_fill data begin v = subarray_fill data begin (length data) v"

section \<open>RepetitionPenaltyLogitsProcessor\<close>

text \<open>The body of the loop for one \<open>input_id\<close>. At an index beyond the end the read gives
  \<open>undefined\<close>, \<open>undefined < 0\<close> is false, and the write of the quotient is dropped.\<close>

definition penalise :: "jsnum \<Rightarrow> jsnum \<Rightarrow> jsnum" where
  "penalise penalty x = (if js_lt x (Fin 0) then js_mul x penalty else js_div x penalty)"

definition penalise_at :: "jsnum \<Rightarrow> buffer \<Rightarrow> nat \<Rightarrow> buffer" where
  "penalise_at penalty data input_id =
     (if input_id < length data
      then typed_set data input_id (penalise penalty (data ! input_id))
      else data)"

fun RepetitionPenalty_loop :: "jsnum \<Rightarrow> nat list \<Rightarrow> buffer \<Rightarrow> buffer" where
  "RepetitionPenalty_loop penalty [] data = data"
| "RepetitionPenalty_loop penalty (input_id # rest) data =
     RepetitionPenalty_loop penalty rest (penalise_at penalty data input_id)"

definition RepetitionPenalty_call :: "jsnum \<Rightarrow> nat list \<Rightarrow> buffer \<Rightarrow> completion \<times> buffer" where
  "RepetitionPenalty_call penalty input_ids data =
     (Returned, RepetitionPenalty_loop penalty input_ids data)"

section \<open>Arrays\<close>

text \<open>\<open>xs.slice(start, end)\<close>: a negative bound counts from the end, and both bounds
  are clamped to the array.\<close>

definition slice_bound :: "nat \<Rightarrow> int \<Rightarrow> nat" where
  "slice_bound len k = (if k < 0 then nat (max (int len + k) 0) else min (nat k) len)"

definition slice :: "'a list \<Rightarrow> int \<Rightarrow> int \<Rightarrow> 'a list" where
  "slice xs start end =
     (let from = slice_bound (length xs) start; to = slice_bound (length xs) end
      in take (to - from) (drop from xs))"

text \<open>\<open>xs.slice(start)\<close>.\<close>

definition slice_from :: "'a list \<Rightarrow> int \<Rightarrow> 'a list" where
  "slice_from xs start = slice xs start (int (length xs))"

text \<open>\<open>xs[i]\<close> on an array: \<open>undefined\<close> (here \<open>None\<close>) outside it.\<close>

definition elem_at :: "'a list \<Rightarrow> int \<Rightarrow> 'a option" where
  "elem_at xs i = (if 0 \<le> i \<and> i < int (length xs) then Some (xs ! nat i) else None)"

section \<open>Processors\<close>

text \<open>A processor is called with the input ids and one row of logits, which it changes
  in place; it returns or throws.\<close>

type_synonym processor = "nat list \<Rightarrow> buffer \<Rightarrow> completion \<times> buffer"

section \<open>LogitsProcessor, ForceTokens, ForcedBOS, ForcedEOS\<close>

definition LogitsProcessor_call :: processor where
  "LogitsProcessor_call input_ids logits =
     (Threw (Error ''`_call` should be implemented in a subclass''), logits)"

text \<open>\<open>Object.fromEntries\<close>: the entries are stored one after the other, so the last
  entry of a key is the one kept. The keys are decoding steps, the values token ids.\<close>

definition fromEntries :: "(nat \<times> nat) list \<Rightarrow> (nat \<rightharpoonup> nat)" where
  "fromEntries entries = foldl (\<lambda>m (k, v). m(k \<mapsto> v)) Map.empty entries"

record ForceTokensLogitsProcessor =
  force_token_map :: "nat \<rightharpoonup> nat"

definition ForceTokens_constructor ::
  "(nat \<times> nat) list js_opt \<Rightarrow> ForceTokensLogitsProcessor" where
  "ForceTokens_constructor forced_decoder_ids =
     \<lparr>force_token_map =
        fromEntries (case forced_decoder_ids of Val ids \<Rightarrow> ids | _ \<Rightarrow> [])\<rparr>"

text \<open>Modelled from the spec: \<open>exists\<close> of utils.js, which is not among the sources;
  the rule acts when the current history length has an entry in the mapping.\<close>

definition exists :: "'a option \<Rightarrow> bool" where
  "exists x = (x \<noteq> None)"

definition ForceTokens_call :: "ForceTokensLogitsProcessor \<Rightarrow> processor" where
  "ForceTokens_call this input_ids logits =
     (let map = force_token_map this (length input_ids) in
      if exists map
      then (Returned, typed_set (fill logits NInf) (the map) (Fin 0))
      else (Returned, logits))"

definition ForcedBOSToken_call :: "nat \<Rightarrow> processor" where
  "ForcedBOSToken_call bos_token_id input_ids logits =
     (if length input_ids = 1
      then (Returned, typed_set (fill logits NInf) bos_token_id (Fin 0))
      else (Returned, logits))"

definition ForcedEOSToken_call :: "nat \<Rightarrow> nat \<Rightarrow> processor" where
  "ForcedEOSToken_call max_length forced_eos_token_id input_ids logits =
     (Threw (Error ''Not yet implemented''), logits)"

section \<open>WhisperTimeStampLogitsProcessor\<close>

text \<open>The fields of \<open>generate_config\<close> that the constructor reads. The two optional
  ones may be absent or \<open>null\<close>; an entry of \<open>forced_decoder_ids\<close> is a pair of a
  decoding step and a token id.\<close>

record generate_config =
  cfg_eos_token_id :: nat
  cfg_no_timestamps_token_id :: nat
  cfg_forced_decoder_ids :: "(nat \<times> nat) list js_opt"
  cfg_max_initial_timestamp_index :: "nat js_opt"

record WhisperTimeStampLogitsProcessor =
  eos_token_id :: nat
  no_timestamps_token_id :: nat
  timestamp_begin :: nat
  begin_index :: nat
  max_initial_timestamp_index :: "nat js_opt"

text \<open>\<open>forced_decoder_ids || []\<close>: an array, even an empty one, is truthy.\<close>

definition or_empty :: "'a list js_opt \<Rightarrow> 'a list" where
  "or_empty v = (case v of Val xs \<Rightarrow> xs | _ \<Rightarrow> [])"

text \<open>The constructor. \<open>generate_config.forced_decoder_ids.slice(-1)[0][1]\<close> throws a
  TypeError when \<open>forced_decoder_ids\<close> is \<open>undefined\<close> or \<open>null\<close> (no \<open>slice\<close> to call)
  and when it is empty (\<open>slice(-1)[0]\<close> is \<open>undefined\<close>, which has no property 1).\<close>

definition WhisperTimeStamp_constructor ::
  "generate_config \<Rightarrow> js_error + WhisperTimeStampLogitsProcessor" where
  "WhisperTimeStamp_constructor cfg =
     (let no_ts = cfg_no_timestamps_token_id cfg;
          begin = length (or_empty (cfg_forced_decoder_ids cfg)) + 2
      in case cfg_forced_decoder_ids cfg of
           Val ids \<Rightarrow>
             (case elem_at (slice_from ids (- 1)) 0 of
                Some (step, token) \<Rightarrow>
                  Inr \<lparr>eos_token_id = cfg_eos_token_id cfg,
                       no_timestamps_token_id = no_ts,
                       timestamp_begin = no_ts + 1,
                       begin_index = (if token = no_ts then begin - 1 else begin),
                       max_initial_timestamp_index = cfg_max_initial_timestamp_index cfg\<rparr>
              | None \<Rightarrow> Inl TypeError)
         | _ \<Rightarrow> Inl TypeError)"

text \<open>Line 206: \<open>logits.data[this.no_timestamps_token_id] = -Infinity\<close>.\<close>

definition suppress_no_timestamps :: "WhisperTimeStampLogitsProcessor \<Rightarrow> buffer \<Rightarrow> buffer" where
  "suppress_no_timestamps this data = typed_set data (no_timestamps_token_id this) NInf"

text \<open>Lines 209 and 210, the branch that returns at once.\<close>

definition force_first_timestamp :: "WhisperTimeStampLogitsProcessor \<Rightarrow> buffer \<Rightarrow> buffer" where
  "force_first_timestamp this data = typed_set (fill data NInf) (timestamp_begin this) (Fin 0)"

definition last_was_timestamp :: "WhisperTimeStampLogitsProcessor \<Rightarrow> nat list \<Rightarrow> bool" where
  "last_was_timestamp this seq =
     (length seq \<ge> 1 \<and> seq ! (length seq - 1) \<ge> timestamp_begin this)"

definition penultimate_was_timestamp :: "WhisperTimeStampLogitsProcessor \<Rightarrow> nat list \<Rightarrow> bool" where
  "penultimate_was_timestamp this seq =
     (length seq < 2 \<or> seq ! (length seq - 2) \<ge> timestamp_begin this)"

text \<open>Lines 215 to 225: timestamps come in pairs.\<close>

definition pairing_step ::
  "WhisperTimeStampLogitsProcessor \<Rightarrow> nat list \<Rightarrow> buffer \<Rightarrow> buffer" where
  "pairing_step this input_ids data =
     (let seq = slice_from input_ids (int (begin_index this)) in
      if last_was_timestamp this seq then
        (if penultimate_was_timestamp this seq
         then subarray_from_fill data (timestamp_begin this) NInf
         else subarray_fill data 0 (eos_token_id this) NInf)
      else data)"

text \<open>Lines 228 to 231. The test is \<open>!== null\<close>, which \<open>undefined\<close> passes: then
  \<open>last_allowed\<close> is \<open>timestamp_begin + undefined\<close>, that is \<open>NaN\<close>, and
  \<open>subarray(NaN)\<close> is the view from index 0.\<close>

definition max_initial_timestamp_step ::
  "WhisperTimeStampLogitsProcessor \<Rightarrow> nat list \<Rightarrow> buffer \<Rightarrow> buffer" where
  "max_initial_timestamp_step this input_ids data =
     (if length input_ids = begin_index this \<and> max_initial_timestamp_index this \<noteq> Null then
        (case max_initial_timestamp_index this of
           Val m \<Rightarrow>
             (let last_allowed = timestamp_begin this + m
              in subarray_from_fill data (last_allowed + 1) NInf)
         | _ \<Rightarrow> subarray_from_fill data 0 NInf)
      else data)"

text \<open>
  The numeric functions the last step calls and the sources do not define:
  \<open>log_softmax\<close> of utils.js, and \<open>Math.exp\<close> and \<open>Math.log\<close>, which the language
  leaves to the implementation. They are parameters: \<open>log_softmax\<close> is any function from
  the buffer to an array of numbers that leaves its argument as it is.
\<close>

record numerics =
  log_softmax :: "buffer \<Rightarrow> jsnum list"
  Math_exp :: "jsnum \<Rightarrow> jsnum"
  Math_log :: "jsnum \<Rightarrow> jsnum"

text \<open>\<open>a + b\<close>; \<open>Math.max\<close>, which starts from \<open>-Infinity\<close> and is \<open>NaN\<close> as soon as
  an argument is; \<open>a > b\<close>.\<close>

fun js_add :: "jsnum \<Rightarrow> jsnum \<Rightarrow> jsnum" where
  "js_add NaN _ = NaN"
| "js_add _ NaN = NaN"
| "js_add (Fin a) (Fin b) = Fin (a + b)"
| "js_add PInf NInf = NaN"
| "js_add NInf PInf = NaN"
| "js_add PInf _ = PInf"
| "js_add NInf _ = NInf"
| "js_add _ PInf = PInf"
| "js_add _ NInf = NInf"

definition js_max2 :: "jsnum \<Rightarrow> jsnum \<Rightarrow> jsnum" where
  "js_max2 a b = (if a = NaN \<or> b = NaN then NaN else if js_lt a b then b else a)"

definition Math_max :: "jsnum list \<Rightarrow> jsnum" where
  "Math_max xs = foldl js_max2 NInf xs"

definition js_gt :: "jsnum \<Rightarrow> jsnum \<Rightarrow> bool" where
  "js_gt a b = js_lt b a"

text \<open>Lines 234 to 239. \<open>reduce\<close> without an initial value throws a TypeError on an
  empty array, which is what the timestamp range is when \<open>timestamp_begin\<close> is not an
  index of \<open>logprobs\<close>.\<close>

definition probability_mass_step ::
  "numerics \<Rightarrow> WhisperTimeStampLogitsProcessor \<Rightarrow> buffer \<Rightarrow> completion \<times> buffer" where
  "probability_mass_step env this data =
     (let logprobs = log_softmax env data in
      case map (Math_exp env) (drop (timestamp_begin this) logprobs) of
        [] \<Rightarrow> (Threw TypeError, data)
      | a # bs \<Rightarrow>
          (let timestamp_logprob = Math_log env (foldl js_add a bs);
               max_text_token_logprob = Math_max (take (timestamp_begin this) logprobs)
           in if js_gt timestamp_logprob max_text_token_logprob
              then (Returned, subarray_fill data 0 (timestamp_begin this) NInf)
              else (Returned, data)))"

definition WhisperTimeStamp_call ::
  "numerics \<Rightarrow> WhisperTimeStampLogitsProcessor \<Rightarrow> processor" where
  "WhisperTimeStamp_call env this input_ids logits =
     (let data = suppress_no_timestamps this logits in
      if int (length input_ids) = int (begin_index this) - 1
      then (Returned, force_first_timestamp this data)
      else probability_mass_step env this
             (max_initial_timestamp_step this input_ids (pairing_step this input_ids data)))"

section \<open>NoRepeatNGramLogitsProcessor\<close>

text \<open>The first loop of \<open>getNgrams\<close>: the windows of \<open>ngramSize\<close> ids, from left to
  right. The loop does not run when \<open>curLen + 1 - ngramSize\<close> is not positive.\<close>

definition ngrams_of :: "nat \<Rightarrow> nat list \<Rightarrow> nat list list" where
  "ngrams_of ngramSize prevInputIds =
     map (\<lambda>j. map (\<lambda>k. prevInputIds ! (j + k)) [0..<ngramSize])
       [0..<length prevInputIds + 1 - ngramSize]"

text \<open>
  \<open>JSON.stringify\<close> on an array of token ids (integers from 0, small enough to be
  printed without an exponent): the decimal numerals, separated by commas, in brackets.
\<close>

definition digit_char :: "nat \<Rightarrow> char" where
  "digit_char d = char_of (48 + d)"

fun decimal :: "nat \<Rightarrow> string" where
  "decimal n =
     (if n < 10 then [digit_char n] else decimal (n div 10) @ [digit_char (n mod 10)])"

declare decimal.simps [simp del]

fun join_commas :: "string list \<Rightarrow> string" where
  "join_commas [] = []"
| "join_commas [x] = x"
| "join_commas (x # y # ys) = x @ CHR '','' # join_commas (y # ys)"

definition JSON_stringify :: "nat list \<Rightarrow> string" where
  "JSON_stringify xs = CHR ''['' # join_commas (map decimal xs) @ [CHR '']'']"

text \<open>The number that a string of digits denotes (used to tell numerals apart).\<close>

definition decimal_value :: "string \<Rightarrow> nat" where
  "decimal_value s = foldl (\<lambda>a c. 10 * a + (of_char c - 48)) 0 s"

text \<open>The body of the second loop. The map is keyed by \<open>JSON.stringify(prevNgram)\<close>.
  An entry of a value is \<open>ngram[ngram.length - 1]\<close>, which is \<open>undefined\<close> (\<open>None\<close>)
  for the empty ngram of \<open>ngramSize = 0\<close>.\<close>

type_synonym ngram_map = "string \<rightharpoonup> nat option list"

definition or_nil :: "'a list option \<Rightarrow> 'a list" where
  "or_nil v = (case v of Some xs \<Rightarrow> xs | None \<Rightarrow> [])"

definition record_ngram :: "ngram_map \<Rightarrow> nat list \<Rightarrow> ngram_map" where
  "record_ngram generatedNgram ngram =
     (let prevNgram = slice ngram 0 (int (length ngram) - 1);
          prevNgramKey = JSON_stringify prevNgram;
          prevNgramValue = or_nil (generatedNgram prevNgramKey)
      in generatedNgram(prevNgramKey \<mapsto>
           prevNgramValue @ [elem_at ngram (int (length ngram) - 1)]))"

definition getNgrams :: "nat \<Rightarrow> nat list \<Rightarrow> ngram_map" where
  "getNgrams ngramSize prevInputIds =
     foldl record_ngram Map.empty (ngrams_of ngramSize prevInputIds)"

definition getGeneratedNgrams :: "ngram_map \<Rightarrow> nat list \<Rightarrow> nat \<Rightarrow> nat option list" where
  "getGeneratedNgrams bannedNgrams prevInputIds ngramSize =
     (let ngramIdx = slice prevInputIds
            (int (length prevInputIds) + 1 - int ngramSize) (int (length prevInputIds))
      in or_nil (bannedNgrams (JSON_stringify ngramIdx)))"

definition calcBannedNgramTokens :: "nat \<Rightarrow> nat list \<Rightarrow> nat option list" where
  "calcBannedNgramTokens ngramSize prevInputIds =
     (if length prevInputIds + 1 < ngramSize then []
      else getGeneratedNgrams (getNgrams ngramSize prevInputIds) prevInputIds ngramSize)"

text \<open>\<open>for (const token of bannedTokens) logits.data[token] = -Infinity\<close>; with the
  token \<open>undefined\<close> the assignment stores no entry of the buffer.\<close>

fun ban_tokens :: "nat option list \<Rightarrow> buffer \<Rightarrow> buffer" where
  "ban_tokens [] data = data"
| "ban_tokens (token # rest) data =
     ban_tokens rest (case token of Some t \<Rightarrow> typed_set data t NInf | None \<Rightarrow> data)"

definition NoRepeatNGram_call :: "nat \<Rightarrow> processor" where
  "NoRepeatNGram_call no_repeat_ngram_size input_ids logits =
     (let bannedTokens = calcBannedNgramTokens no_repeat_ngram_size input_ids
      in (Returned, ban_tokens bannedTokens logits))"

section \<open>LogitsProcessorList\<close>

record LogitsProcessorList =
  processors :: "processor list"

definition LogitsProcessorList_constructor :: LogitsProcessorList where
  "LogitsProcessorList_constructor = \<lparr>processors = []\<rparr>"

definition push :: "LogitsProcessorList \<Rightarrow> processor \<Rightarrow> LogitsProcessorList" where
  "push this item = this\<lparr>processors := processors this @ [item]\<rparr>"

definition extend :: "LogitsProcessorList \<Rightarrow> processor list \<Rightarrow> LogitsProcessorList" where
  "extend this items = this\<lparr>processors := processors this @ items\<rparr>"

text \<open>\<open>this.processors.forEach(func => func(input_ids, logits))\<close>: a throw leaves the
  loop, with the row as the processors before have left it.\<close>

fun forEach :: "processor list \<Rightarrow> nat list \<Rightarrow> buffer \<Rightarrow> completion \<times> buffer" where
  "forEach [] input_ids logits = (Returned, logits)"
| "forEach (func # rest) input_ids logits =
     (case func input_ids logits of
        (Returned, logits') \<Rightarrow> forEach rest input_ids logits'
      | (Threw e, logits') \<Rightarrow> (Threw e, logits'))"

text \<open>\<open>for (let logits of batchedLogits)\<close>: a throw leaves the rows after it untouched.\<close>

fun for_of_batchedLogits ::
  "processor list \<Rightarrow> nat list \<Rightarrow> buffer list \<Rightarrow> completion \<times> buffer list" where
  "for_of_batchedLogits ps input_ids [] = (Returned, [])"
| "for_of_batchedLogits ps input_ids (logits # rows) =
     (case forEach ps input_ids logits of
        (Returned, logits') \<Rightarrow>
          (case for_of_batchedLogits ps input_ids rows of
             (c, rows') \<Rightarrow> (c, logits' # rows'))
      | (Threw e, logits') \<Rightarrow> (Threw e, logits' # rows))"

definition LogitsProcessorList_call ::
  "LogitsProcessorList \<Rightarrow> nat list \<Rightarrow> buffer list \<Rightarrow> completion \<times> buffer list" where
  "LogitsProcessorList_call this input_ids batchedLogits =
     for_of_batchedLogits (processors this) input_ids batchedLogits"

section \<open>Buffer lemmas\<close>

lemma length_typed_set: "length (typed_set data i v) = length data"
  by (simp add: typed_set_def)

lemma nth_typed_set:
  "j < length data \<Longrightarrow> typed_set data i v ! j = (if j = i then v else data ! j)"
  by (simp add: typed_set_def)

lemma length_subarray_fill: "length (subarray_fill data b e v) = length data"
  by (simp add: subarray_fill_def)

lemma nth_subarray_fill:
  "j < length data \<Longrightarrow>
   subarray_fill data b e v ! j = (if b \<le> j \<and> j < e then v else data ! j)"
  by (simp add: subarray_fill_def nth_enumerate_eq)

lemma subarray_fill_Nil: "subarray_fill [] b e v = []"
  by (simp add: subarray_fill_def)

lemma subarray_fill_Cons:
  "subarray_fill (x # xs) b e v =
     (if b = 0 \<and> 0 < e then v else x) # subarray_fill xs (b - 1) (e - 1) v"
  by (rule nth_equalityI)
     (auto simp: length_subarray_fill nth_subarray_fill nth_Cons split: nat.splits)

lemma length_fill: "length (fill data v) = length data"
  by (simp add: fill_def length_subarray_fill)

lemma nth_fill: "j < length data \<Longrightarrow> fill data v ! j = v"
  by (simp add: fill_def nth_subarray_fill)

lemma length_subarray_from_fill: "length (subarray_from_fill data b v) = length data"
  by (simp add: subarray_from_fill_def length_subarray_fill)

lemma nth_subarray_from_fill:
  "j < length data \<Longrightarrow> subarray_from_fill data b v ! j = (if b \<le> j then v else data ! j)"
  by (simp add: subarray_from_fill_def nth_subarray_fill)

section \<open>RepetitionPenalty: results\<close>

lemma length_penalise_at: "length (penalise_at penalty data i) = length data"
  by (simp add: penalise_at_def length_typed_set)

lemma nth_penalise_at:
  "j < length data \<Longrightarrow>
   penalise_at penalty data i ! j = (if j = i then penalise penalty (data ! j) else data ! j)"
  by (simp add: penalise_at_def nth_typed_set)

lemma length_RepetitionPenalty_loop:
  "length (RepetitionPenalty_loop penalty input_ids data) = length data"
  by (induction input_ids arbitrary: data) (simp_all add: length_penalise_at)

lemma nth_RepetitionPenalty_loop:
  "j < length data \<Longrightarrow>
   RepetitionPenalty_loop penalty input_ids data ! j =
     (penalise penalty ^^ count_list input_ids j) (data ! j)"
proof (induction input_ids arbitrary: data)
  case Nil
  then show ?case by simp
next
  case (Cons i rest)
  have len: "j < length (penalise_at penalty data i)"
    using Cons.prems by (simp add: length_penalise_at)
  show ?case
    using Cons.IH [OF len] Cons.prems
    by (simp add: nth_penalise_at funpow_swap1)
qed

lemma penalise_one: "penalise (Fin 1) x = x"
  by (cases x) (simp_all add: penalise_def)

lemma penalise_at_one: "penalise_at (Fin 1) data i = data"
  by (simp add: penalise_at_def typed_set_def penalise_one)

text \<open>
  Claim C9. With \<open>penalty = 1.0\<close> the repetition penalty returns and leaves the buffer
  as it was, for every history and every buffer.
\<close>

theorem RepetitionPenalty_one_identity:
  "RepetitionPenalty_call (Fin 1) input_ids data = (Returned, data)"
  unfolding RepetitionPenalty_call_def
  by (induction input_ids) (simp_all add: penalise_at_one)

text \<open>
  Claim C2, as the code has it. An index is penalised once for every occurrence in the
  history, not once per distinct index: after the call, the entry at each index of the
  buffer is its prior value with the transform (multiply by the penalty if negative,
  divide otherwise, the sign read afresh each time) applied as many times as the index
  occurs in the history. The entries at indices that do not occur are unchanged, and the
  length of the buffer is kept.
\<close>

theorem RepetitionPenalty_per_occurrence:
  "fst (RepetitionPenalty_call penalty input_ids data) = Returned \<and>
   length (snd (RepetitionPenalty_call penalty input_ids data)) = length data \<and>
   (\<forall>i < length data.
      snd (RepetitionPenalty_call penalty input_ids data) ! i =
        (penalise penalty ^^ count_list input_ids i) (data ! i)) \<and>
   (\<forall>i < length data. i \<notin> set input_ids \<longrightarrow>
      snd (RepetitionPenalty_call penalty input_ids data) ! i = data ! i)"
  by (simp add: RepetitionPenalty_call_def length_RepetitionPenalty_loop
      nth_RepetitionPenalty_loop)

theorem RepetitionPenalty_per_occurrence_witness:
  "snd (RepetitionPenalty_call (Fin 2) [0, 0, 2] [Fin 4, Fin 3, Fin (- 1)]) ! 0 = Fin 1 \<and>
   snd (RepetitionPenalty_call (Fin 2) [0, 0, 2] [Fin 4, Fin 3, Fin (- 1)]) ! 1 = Fin 3 \<and>
   snd (RepetitionPenalty_call (Fin 2) [0, 0, 2] [Fin 4, Fin 3, Fin (- 1)]) ! 2 = Fin (- 2)"
  using RepetitionPenalty_per_occurrence
    [of "Fin 2" "[0, 0, 2]" "[Fin 4, Fin 3, Fin (- 1)]"]
  by (simp add: penalise_def numeral_2_eq_2 All_less_Suc2 numeral_3_eq_3)

text \<open>
  Claim C2 as stated fails: with penalty 2 and the history \<open>[0, 0]\<close>, the score 4 at
  index 0 is divided twice and ends as 1, where a single application gives 2.
\<close>

theorem RepetitionPenalty_duplicates_counterexample:
  "0 \<in> set [0, 0 :: nat] \<and>
   snd (RepetitionPenalty_call (Fin 2) [0, 0] [Fin 4]) ! 0 = Fin 1 \<and>
   penalise (Fin 2) ([Fin 4] ! 0) = Fin 2"
  by (simp add: RepetitionPenalty_call_def penalise_at_def typed_set_def penalise_def)

section \<open>ForceTokens: results\<close>

lemma fromEntries_foldl:
  "foldl (\<lambda>m (k, v). m(k \<mapsto> v)) m0 entries = m0 ++ map_of (rev entries)"
  by (induction entries arbitrary: m0) (auto simp: map_add_def fun_eq_iff split: option.splits)

lemma fromEntries_map_of: "fromEntries entries = map_of (rev entries)"
  by (simp add: fromEntries_def fromEntries_foldl)

lemma length_force: "length (typed_set (fill data NInf) t (Fin 0)) = length data"
  by (simp add: length_typed_set length_fill)

lemma nth_force:
  "i < length data \<Longrightarrow>
   typed_set (fill data NInf) t (Fin 0) ! i = (if i = t then Fin 0 else NInf)"
  by (simp add: nth_typed_set length_fill nth_fill)

text \<open>
  Claim C8. The forcing map built from a list of (step, token) pairs holds, for each
  step, the token of the last pair with that step. When the history length is a key of
  the map with token \<open>t\<close>, the call returns with every entry of the buffer negative
  infinity but the entry at \<open>t\<close>, which is 0; when it is not a key, the buffer is
  returned as it was.
\<close>

theorem ForceTokens_call_forces:
  "force_token_map (ForceTokens_constructor (Val forced)) = map_of (rev forced) \<and>
   (force_token_map this (length input_ids) = Some t \<longrightarrow>
      fst (ForceTokens_call this input_ids logits) = Returned \<and>
      length (snd (ForceTokens_call this input_ids logits)) = length logits \<and>
      (\<forall>i < length logits.
         snd (ForceTokens_call this input_ids logits) ! i = (if i = t then Fin 0 else NInf))) \<and>
   (force_token_map this (length input_ids) = None \<longrightarrow>
      ForceTokens_call this input_ids logits = (Returned, logits))"
  by (simp add: ForceTokens_constructor_def fromEntries_map_of ForceTokens_call_def
      exists_def length_force nth_force)

theorem ForceTokens_call_forces_witness:
  "snd (ForceTokens_call (ForceTokens_constructor (Val [(1, 2), (2, 0), (1, 3)])) [9]
         [Fin 5, NaN, Fin 7, PInf]) ! 3 = Fin 0 \<and>
   snd (ForceTokens_call (ForceTokens_constructor (Val [(1, 2), (2, 0), (1, 3)])) [9]
         [Fin 5, NaN, Fin 7, PInf]) ! 2 = NInf \<and>
   ForceTokens_call (ForceTokens_constructor (Val [(1, 2), (2, 0), (1, 3)])) []
         [Fin 5, NaN, Fin 7, PInf] = (Returned, [Fin 5, NaN, Fin 7, PInf])"
  using ForceTokens_call_forces
    [of "[(1, 2), (2, 0), (1, 3)]" "ForceTokens_constructor (Val [(1, 2), (2, 0), (1, 3)])"
        "[9]" 3 "[Fin 5, NaN, Fin 7, PInf]"]
    ForceTokens_call_forces
    [of "[(1, 2), (2, 0), (1, 3)]" "ForceTokens_constructor (Val [(1, 2), (2, 0), (1, 3)])"
        "[]" 0 "[Fin 5, NaN, Fin 7, PInf]"]
  by simp

section \<open>WhisperTimeStamp constructor: results\<close>

lemma slice_from_last:
  "ids \<noteq> [] \<Longrightarrow> slice_from ids (- 1) = [last ids]"
  by (cases ids rule: rev_cases)
     (simp_all add: slice_from_def slice_def slice_bound_def Let_def)

lemma slice_from_nil: "slice_from [] k = []"
  by (simp add: slice_from_def slice_def)

lemma constructor_Val:
  "ids \<noteq> [] \<Longrightarrow> cfg_forced_decoder_ids cfg = Val ids \<Longrightarrow>
   WhisperTimeStamp_constructor cfg =
     Inr \<lparr>eos_token_id = cfg_eos_token_id cfg,
          no_timestamps_token_id = cfg_no_timestamps_token_id cfg,
          timestamp_begin = cfg_no_timestamps_token_id cfg + 1,
          begin_index = (if snd (last ids) = cfg_no_timestamps_token_id cfg
                         then length ids + 1 else length ids + 2),
          max_initial_timestamp_index = cfg_max_initial_timestamp_index cfg\<rparr>"
  by (simp add: WhisperTimeStamp_constructor_def slice_from_last elem_at_def or_empty_def
      Let_def split: prod.splits)

lemma constructor_fails:
  "cfg_forced_decoder_ids cfg = Undefined \<or> cfg_forced_decoder_ids cfg = Null \<or>
   cfg_forced_decoder_ids cfg = Val [] \<Longrightarrow>
   WhisperTimeStamp_constructor cfg = Inl TypeError"
  by (auto simp: WhisperTimeStamp_constructor_def slice_from_nil elem_at_def Let_def)

text \<open>
  Claim C10. The constructor throws a TypeError when \<open>forced_decoder_ids\<close> is absent,
  \<open>null\<close> or the empty list, and it yields an instance exactly when
  \<open>forced_decoder_ids\<close> is a non-empty list of pairs.
\<close>

theorem WhisperTimeStamp_constructor_needs_forced_decoder_ids:
  "(cfg_forced_decoder_ids cfg = Undefined \<or> cfg_forced_decoder_ids cfg = Null \<or>
    cfg_forced_decoder_ids cfg = Val [] \<longrightarrow>
      WhisperTimeStamp_constructor cfg = Inl TypeError) \<and>
   ((\<exists>this. WhisperTimeStamp_constructor cfg = Inr this) =
    (\<exists>ids. cfg_forced_decoder_ids cfg = Val ids \<and> ids \<noteq> []))"
proof (cases "\<exists>ids. cfg_forced_decoder_ids cfg = Val ids \<and> ids \<noteq> []")
  case True
  then obtain ids where "cfg_forced_decoder_ids cfg = Val ids" "ids \<noteq> []" by blast
  then show ?thesis using constructor_Val [of ids cfg] by auto
next
  case False
  then have "cfg_forced_decoder_ids cfg = Undefined \<or> cfg_forced_decoder_ids cfg = Null \<or>
    cfg_forced_decoder_ids cfg = Val []"
    by (cases "cfg_forced_decoder_ids cfg") auto
  then show ?thesis using constructor_fails [of cfg] False by auto
qed

theorem WhisperTimeStamp_constructor_needs_forced_decoder_ids_witness:
  "WhisperTimeStamp_constructor
     \<lparr>cfg_eos_token_id = 0, cfg_no_timestamps_token_id = 1,
      cfg_forced_decoder_ids = Val [], cfg_max_initial_timestamp_index = Val 1\<rparr>
     = Inl TypeError \<and>
   WhisperTimeStamp_constructor
     \<lparr>cfg_eos_token_id = 0, cfg_no_timestamps_token_id = 1,
      cfg_forced_decoder_ids = Undefined, cfg_max_initial_timestamp_index = Val 1\<rparr>
     = Inl TypeError \<and>
   (\<exists>this. WhisperTimeStamp_constructor
     \<lparr>cfg_eos_token_id = 0, cfg_no_timestamps_token_id = 1,
      cfg_forced_decoder_ids = Val [(1, 7)], cfg_max_initial_timestamp_index = Val 1\<rparr>
     = Inr this)"
  using WhisperTimeStamp_constructor_needs_forced_decoder_ids
     [of "\<lparr>cfg_eos_token_id = 0, cfg_no_timestamps_token_id = 1,
      cfg_forced_decoder_ids = Val [], cfg_max_initial_timestamp_index = Val 1\<rparr>"]
    WhisperTimeStamp_constructor_needs_forced_decoder_ids
     [of "\<lparr>cfg_eos_token_id = 0, cfg_no_timestamps_token_id = 1,
      cfg_forced_decoder_ids = Undefined, cfg_max_initial_timestamp_index = Val 1\<rparr>"]
    WhisperTimeStamp_constructor_needs_forced_decoder_ids
     [of "\<lparr>cfg_eos_token_id = 0, cfg_no_timestamps_token_id = 1,
      cfg_forced_decoder_ids = Val [(1, 7)], cfg_max_initial_timestamp_index = Val 1\<rparr>"]
  by simp

section \<open>WhisperTimeStamp call: results\<close>

lemma constructor_timestamp_begin:
  assumes "WhisperTimeStamp_constructor cfg = Inr this"
  shows "timestamp_begin this = no_timestamps_token_id this + 1"
  using assms
  by (auto simp: WhisperTimeStamp_constructor_def Let_def
      split: js_opt.splits option.splits prod.splits)

lemma length_suppress_no_timestamps:
  "length (suppress_no_timestamps this data) = length data"
  by (simp add: suppress_no_timestamps_def length_typed_set)

lemma nth_suppress_no_timestamps:
  "i < length data \<Longrightarrow>
   suppress_no_timestamps this data ! i =
     (if i = no_timestamps_token_id this then NInf else data ! i)"
  by (simp add: suppress_no_timestamps_def nth_typed_set)

lemma length_force_first_timestamp:
  "length (force_first_timestamp this data) = length data"
  by (simp add: force_first_timestamp_def length_force)

lemma nth_force_first_timestamp:
  "i < length data \<Longrightarrow>
   force_first_timestamp this data ! i = (if i = timestamp_begin this then Fin 0 else NInf)"
  by (simp add: force_first_timestamp_def nth_force)

lemma slice_from_drop: "slice_from xs (int k) = drop k xs"
  by (cases "k \<le> length xs")
     (simp_all add: slice_from_def slice_def slice_bound_def Let_def min_def)


lemma length_pairing_step: "length (pairing_step this input_ids data) = length data"
  by (simp add: pairing_step_def Let_def length_subarray_from_fill length_subarray_fill)

lemma nth_pairing_step:
  "i < length data \<Longrightarrow>
   pairing_step this input_ids data ! i =
     (let seq = drop (begin_index this) input_ids in
      if last_was_timestamp this seq then
        (if penultimate_was_timestamp this seq
         then (if timestamp_begin this \<le> i then NInf else data ! i)
         else (if i < eos_token_id this then NInf else data ! i))
      else data ! i)"
  by (simp add: pairing_step_def Let_def slice_from_drop nth_subarray_from_fill
      nth_subarray_fill)

lemma length_max_initial_timestamp_step:
  "length (max_initial_timestamp_step this input_ids data) = length data"
  by (simp add: max_initial_timestamp_step_def Let_def length_subarray_from_fill
      split: js_opt.splits)

lemma nth_max_initial_timestamp_step:
  "i < length data \<Longrightarrow>
   max_initial_timestamp_step this input_ids data ! i =
     (if length input_ids = begin_index this then
        (case max_initial_timestamp_index this of
           Null \<Rightarrow> data ! i
         | Undefined \<Rightarrow> NInf
         | Val m \<Rightarrow> (if timestamp_begin this + m < i then NInf else data ! i))
      else data ! i)"
  by (auto simp: max_initial_timestamp_step_def Let_def nth_subarray_from_fill
      split: js_opt.splits)

lemma length_probability_mass_step:
  "length (snd (probability_mass_step env this data)) = length data"
  by (simp add: probability_mass_step_def Let_def length_subarray_fill split: list.splits)

lemma nth_probability_mass_step:
  "i < length data \<Longrightarrow>
   snd (probability_mass_step env this data) ! i = data ! i \<or>
   snd (probability_mass_step env this data) ! i = NInf"
  by (simp add: probability_mass_step_def Let_def nth_subarray_fill split: list.splits)

text \<open>Each of the later steps writes nothing but negative infinity.\<close>

lemma pairing_step_keeps_NInf:
  "i < length data \<Longrightarrow> data ! i = NInf \<Longrightarrow> pairing_step this input_ids data ! i = NInf"
  by (simp add: nth_pairing_step Let_def)

lemma max_initial_timestamp_step_keeps_NInf:
  "i < length data \<Longrightarrow> data ! i = NInf \<Longrightarrow>
   max_initial_timestamp_step this input_ids data ! i = NInf"
  by (simp add: nth_max_initial_timestamp_step split: js_opt.splits)

lemma probability_mass_step_keeps_NInf:
  "i < length data \<Longrightarrow> data ! i = NInf \<Longrightarrow>
   snd (probability_mass_step env this data) ! i = NInf"
  using nth_probability_mass_step [of i data env this] by auto

lemma length_WhisperTimeStamp_call:
  "length (snd (WhisperTimeStamp_call env this input_ids logits)) = length logits"
  by (simp add: WhisperTimeStamp_call_def Let_def length_force_first_timestamp
      length_suppress_no_timestamps length_probability_mass_step
      length_max_initial_timestamp_step length_pairing_step)

text \<open>
  Claim C4. For a constructed processor, after the call the entry of the buffer at
  \<open>no_timestamps_token_id\<close> (an index of the buffer) is negative infinity, whatever the
  history and the buffer, on every path: the branch that forces the first timestamp
  (it writes 0 at \<open>timestamp_begin\<close>, which is the next index), the two pairing
  branches, the max-initial-timestamp branch and the probability-mass branch. It is so
  too when the last step throws.
\<close>

theorem WhisperTimeStamp_call_suppresses_no_timestamps:
  assumes "WhisperTimeStamp_constructor cfg = Inr this"
    and "no_timestamps_token_id this < length logits"
  shows "snd (WhisperTimeStamp_call env this input_ids logits) ! no_timestamps_token_id this
           = NInf"
proof -
  let ?k = "no_timestamps_token_id this"
  let ?data = "suppress_no_timestamps this logits"
  have len: "?k < length ?data"
    using assms(2) by (simp add: length_suppress_no_timestamps)
  have start: "?data ! ?k = NInf"
    using assms(2) by (simp add: nth_suppress_no_timestamps)
  show ?thesis
  proof (cases "int (length input_ids) = int (begin_index this) - 1")
    case True
    have "timestamp_begin this \<noteq> ?k"
      using constructor_timestamp_begin [OF assms(1)] by simp
    then show ?thesis
      using True len by (simp add: WhisperTimeStamp_call_def Let_def nth_force_first_timestamp)
  next
    case False
    let ?d3 = "pairing_step this input_ids ?data"
    let ?d4 = "max_initial_timestamp_step this input_ids ?d3"
    have l3: "?k < length ?d3" using len by (simp add: length_pairing_step)
    have n3: "?d3 ! ?k = NInf" using len start by (rule pairing_step_keeps_NInf)
    have l4: "?k < length ?d4" using l3 by (simp add: length_max_initial_timestamp_step)
    have n4: "?d4 ! ?k = NInf" using l3 n3 by (rule max_initial_timestamp_step_keeps_NInf)
    have "snd (probability_mass_step env this ?d4) ! ?k = NInf"
      using l4 n4 by (rule probability_mass_step_keeps_NInf)
    then show ?thesis
      using False by (simp add: WhisperTimeStamp_call_def Let_def)
  qed
qed


theorem WhisperTimeStamp_call_suppresses_no_timestamps_witness:
  "WhisperTimeStamp_constructor
     \<lparr>cfg_eos_token_id = 0, cfg_no_timestamps_token_id = 1,
      cfg_forced_decoder_ids = Val [(1, 7)], cfg_max_initial_timestamp_index = Val 1\<rparr> =
     Inr \<lparr>eos_token_id = 0, no_timestamps_token_id = 1, timestamp_begin = 2,
          begin_index = 3, max_initial_timestamp_index = Val 1\<rparr> \<and>
   snd (WhisperTimeStamp_call
          \<lparr>log_softmax = (\<lambda>d. d), Math_exp = (\<lambda>x. x), Math_log = (\<lambda>x. x)\<rparr>
          \<lparr>eos_token_id = 0, no_timestamps_token_id = 1, timestamp_begin = 2,
           begin_index = 3, max_initial_timestamp_index = Val 1\<rparr>
          [7, 7, 7, 3] [Fin 1, Fin 2, Fin 3, Fin 4]) ! 1 = NInf"
proof -
  have c: "WhisperTimeStamp_constructor
     \<lparr>cfg_eos_token_id = 0, cfg_no_timestamps_token_id = 1,
      cfg_forced_decoder_ids = Val [(1, 7)], cfg_max_initial_timestamp_index = Val 1\<rparr> =
     Inr \<lparr>eos_token_id = 0, no_timestamps_token_id = 1, timestamp_begin = 2,
          begin_index = 3, max_initial_timestamp_index = Val 1\<rparr>"
    by (simp add: constructor_Val [of "[(1, 7)]"])
  show ?thesis
    using c WhisperTimeStamp_call_suppresses_no_timestamps
      [OF c, of "[Fin 1, Fin 2, Fin 3, Fin 4]"
         "\<lparr>log_softmax = (\<lambda>d. d), Math_exp = (\<lambda>x. x), Math_log = (\<lambda>x. x)\<rparr>"
         "[7, 7, 7, 3]"]
    by simp
qed

text \<open>
  Claim C5. For a constructed processor (so \<open>timestamp_begin\<close> is
  \<open>no_timestamps_token_id + 1\<close>), when the history length is \<open>begin_index - 1\<close> the call
  returns the buffer of the forcing branch, whatever the numeric functions of the later
  steps are: every entry is negative infinity but the one at \<open>timestamp_begin\<close>, which
  is 0, so that exactly one entry is 0 when \<open>timestamp_begin\<close> is an index of the buffer.
\<close>

theorem WhisperTimeStamp_call_forces_first_timestamp:
  assumes "WhisperTimeStamp_constructor cfg = Inr this"
    and "int (length input_ids) = int (begin_index this) - 1"
  shows "timestamp_begin this = no_timestamps_token_id this + 1 \<and>
    WhisperTimeStamp_call env this input_ids logits =
      (Returned, force_first_timestamp this (suppress_no_timestamps this logits)) \<and>
    length (snd (WhisperTimeStamp_call env this input_ids logits)) = length logits \<and>
    (\<forall>i < length logits.
       snd (WhisperTimeStamp_call env this input_ids logits) ! i =
         (if i = timestamp_begin this then Fin 0 else NInf)) \<and>
    (timestamp_begin this < length logits \<longrightarrow>
       {i. i < length logits \<and>
           snd (WhisperTimeStamp_call env this input_ids logits) ! i = Fin 0} =
       {timestamp_begin this})"
proof -
  have eq: "WhisperTimeStamp_call env this input_ids logits =
      (Returned, force_first_timestamp this (suppress_no_timestamps this logits))"
    using assms(2) by (simp add: WhisperTimeStamp_call_def Let_def)
  have nth: "\<forall>i < length logits.
       snd (WhisperTimeStamp_call env this input_ids logits) ! i =
         (if i = timestamp_begin this then Fin 0 else NInf)"
    by (simp add: eq nth_force_first_timestamp length_suppress_no_timestamps)
  have one: "{i. i < length logits \<and>
           snd (WhisperTimeStamp_call env this input_ids logits) ! i = Fin 0} =
       {timestamp_begin this}" if "timestamp_begin this < length logits"
    using that nth by (auto split: if_splits)
  have len: "length (snd (WhisperTimeStamp_call env this input_ids logits)) = length logits"
    by (rule length_WhisperTimeStamp_call)
  show ?thesis
    using constructor_timestamp_begin [OF assms(1)] eq nth one len by blast
qed

theorem WhisperTimeStamp_call_forces_first_timestamp_witness:
  "WhisperTimeStamp_constructor
     \<lparr>cfg_eos_token_id = 0, cfg_no_timestamps_token_id = 1,
      cfg_forced_decoder_ids = Val [(1, 7)], cfg_max_initial_timestamp_index = Val 1\<rparr> =
     Inr \<lparr>eos_token_id = 0, no_timestamps_token_id = 1, timestamp_begin = 2,
          begin_index = 3, max_initial_timestamp_index = Val 1\<rparr> \<and>
   WhisperTimeStamp_call
     \<lparr>log_softmax = (\<lambda>d. d), Math_exp = (\<lambda>x. x), Math_log = (\<lambda>x. x)\<rparr>
     \<lparr>eos_token_id = 0, no_timestamps_token_id = 1, timestamp_begin = 2,
      begin_index = 3, max_initial_timestamp_index = Val 1\<rparr>
     [7, 7] [Fin 1, Fin 2, Fin 3, Fin 4] = (Returned, [NInf, NInf, Fin 0, NInf])"
proof -
  have c: "WhisperTimeStamp_constructor
     \<lparr>cfg_eos_token_id = 0, cfg_no_timestamps_token_id = 1,
      cfg_forced_decoder_ids = Val [(1, 7)], cfg_max_initial_timestamp_index = Val 1\<rparr> =
     Inr \<lparr>eos_token_id = 0, no_timestamps_token_id = 1, timestamp_begin = 2,
          begin_index = 3, max_initial_timestamp_index = Val 1\<rparr>"
    by (simp add: constructor_Val [of "[(1, 7)]"])
  have h: "int (length [7, 7 :: nat]) =
      int (begin_index \<lparr>eos_token_id = 0, no_timestamps_token_id = 1, timestamp_begin = 2,
          begin_index = 3, max_initial_timestamp_index = Val 1\<rparr>) - 1"
    by simp
  show ?thesis
    using c WhisperTimeStamp_call_forces_first_timestamp
      [OF c h, of "\<lparr>log_softmax = (\<lambda>d. d), Math_exp = (\<lambda>x. x), Math_log = (\<lambda>x. x)\<rparr>"
         "[Fin 1, Fin 2, Fin 3, Fin 4]"]
    by (simp add: force_first_timestamp_def suppress_no_timestamps_def typed_set_def
        fill_def subarray_fill_def enumerate_eq_zip upt_rec)
qed



lemma max_initial_timestamp_step_Null:
  "max_initial_timestamp_index this = Null \<Longrightarrow>
   max_initial_timestamp_step this input_ids data = data"
  by (simp add: max_initial_timestamp_step_def)

lemma max_initial_timestamp_step_Val:
  "length input_ids = begin_index this \<Longrightarrow> max_initial_timestamp_index this = Val m \<Longrightarrow>
   i < length data \<Longrightarrow>
   max_initial_timestamp_step this input_ids data ! i =
     (if timestamp_begin this + m < i then NInf else data ! i)"
  by (simp add: nth_max_initial_timestamp_step)

lemma max_initial_timestamp_step_Undefined:
  "length input_ids = begin_index this \<Longrightarrow> max_initial_timestamp_index this = Undefined \<Longrightarrow>
   max_initial_timestamp_step this input_ids data = replicate (length data) NInf"
  by (rule nth_equalityI)
     (simp_all add: length_max_initial_timestamp_step nth_max_initial_timestamp_step)

lemma probability_mass_step_all_NInf:
  "snd (probability_mass_step env this (replicate n NInf)) = replicate n NInf"
proof (rule nth_equalityI)
  show "length (snd (probability_mass_step env this (replicate n NInf))) =
        length (replicate n NInf)"
    by (simp add: length_probability_mass_step)
next
  fix i
  assume "i < length (snd (probability_mass_step env this (replicate n NInf)))"
  then have "i < length (replicate n NInf :: jsnum list)"
    by (simp add: length_probability_mass_step)
  then show "snd (probability_mass_step env this (replicate n NInf)) ! i =
             replicate n NInf ! i"
    using probability_mass_step_keeps_NInf [of i "replicate n NInf" env this] by simp
qed

text \<open>
  Claim C3, at a configuration that leaves \<open>max_initial_timestamp_index\<close> out. The
  processor is constructed with the field \<open>undefined\<close>; at a history of length
  \<open>begin_index\<close> the max-initial-timestamp step then writes negative infinity into every
  entry of the buffer, and so the whole call leaves a buffer of negative infinities,
  whatever the numeric functions are. (With the field \<open>null\<close> the step keeps the buffer,
  and with a value it suppresses the indices beyond \<open>timestamp_begin\<close> plus that value:
  the three lemmas before.)
\<close>

theorem max_initial_timestamp_step_absent_suppresses_all:
  "WhisperTimeStamp_constructor
     \<lparr>cfg_eos_token_id = 0, cfg_no_timestamps_token_id = 1,
      cfg_forced_decoder_ids = Val [(1, 7)], cfg_max_initial_timestamp_index = Undefined\<rparr> =
     Inr \<lparr>eos_token_id = 0, no_timestamps_token_id = 1, timestamp_begin = 2,
          begin_index = 3, max_initial_timestamp_index = Undefined\<rparr> \<and>
   max_initial_timestamp_step
     \<lparr>eos_token_id = 0, no_timestamps_token_id = 1, timestamp_begin = 2,
      begin_index = 3, max_initial_timestamp_index = Undefined\<rparr>
     [7, 7, 7] [Fin 1, Fin 2, Fin 3, Fin 4] = [NInf, NInf, NInf, NInf] \<and>
   snd (WhisperTimeStamp_call env
     \<lparr>eos_token_id = 0, no_timestamps_token_id = 1, timestamp_begin = 2,
      begin_index = 3, max_initial_timestamp_index = Undefined\<rparr>
     [7, 7, 7] [Fin 1, Fin 2, Fin 3, Fin 4]) = [NInf, NInf, NInf, NInf]"
proof -
  let ?p = "\<lparr>eos_token_id = 0, no_timestamps_token_id = 1, timestamp_begin = 2,
      begin_index = 3, max_initial_timestamp_index = Undefined\<rparr>"
  have c: "WhisperTimeStamp_constructor
     \<lparr>cfg_eos_token_id = 0, cfg_no_timestamps_token_id = 1,
      cfg_forced_decoder_ids = Val [(1, 7)], cfg_max_initial_timestamp_index = Undefined\<rparr> =
     Inr ?p"
    by (simp add: constructor_Val [of "[(1, 7)]"])
  have m: "max_initial_timestamp_step ?p [7, 7, 7] data = replicate (length data) NInf"
    for data
    by (simp add: max_initial_timestamp_step_Undefined)
  have call: "WhisperTimeStamp_call env ?p [7, 7, 7] logits =
      probability_mass_step env ?p
        (max_initial_timestamp_step ?p [7, 7, 7]
          (pairing_step ?p [7, 7, 7] (suppress_no_timestamps ?p logits)))" for logits
    by (simp add: WhisperTimeStamp_call_def Let_def)
  have "snd (WhisperTimeStamp_call env ?p [7, 7, 7] logits) =
        replicate (length logits) NInf" for logits
    by (simp only: call m probability_mass_step_all_NInf length_pairing_step
        length_suppress_no_timestamps)
  from this [of "[Fin 1, Fin 2, Fin 3, Fin 4]"] show ?thesis
    using c m [of "[Fin 1, Fin 2, Fin 3, Fin 4]"]
    by (simp add: numeral_eq_Suc)
qed

section \<open>LogitsProcessorList: results\<close>

text \<open>The buffer a row holds after the processors, one after the other, each given
  \<open>input_ids\<close> and the buffer the one before has left.\<close>

lemma forEach_Returned:
  "fst (forEach ps input_ids logits) = Returned \<Longrightarrow>
   forEach ps input_ids logits =
     (Returned, foldl (\<lambda>data func. snd (func input_ids data)) logits ps)"
proof (induction ps arbitrary: logits)
  case Nil
  then show ?case by simp
next
  case (Cons func rest)
  obtain c logits' where f: "func input_ids logits = (c, logits')"
    by (cases "func input_ids logits")
  show ?case
  proof (cases c)
    case Returned
    then show ?thesis using Cons.IH [of logits'] Cons.prems f by simp
  next
    case (Threw e)
    then show ?thesis using Cons.prems f by simp
  qed
qed

lemma forEach_invocations_returned:
  "fst (forEach ps input_ids logits) = Returned \<Longrightarrow> k < length ps \<Longrightarrow>
   fst ((ps ! k) input_ids
          (foldl (\<lambda>data func. snd (func input_ids data)) logits (take k ps))) = Returned"
proof (induction ps arbitrary: logits k)
  case Nil
  then show ?case by simp
next
  case (Cons func rest)
  obtain c logits' where f: "func input_ids logits = (c, logits')"
    by (cases "func input_ids logits")
  show ?case
  proof (cases c)
    case (Threw e)
    then show ?thesis using Cons.prems f by simp
  next
    case Returned
    then have r: "fst (forEach rest input_ids logits') = Returned"
      using Cons.prems(1) f by simp
    show ?thesis
    proof (cases k)
      case 0
      then show ?thesis using f Returned by simp
    next
      case (Suc k')
      then have "k' < length rest" using Cons.prems(2) by simp
      from Cons.IH [OF r this] show ?thesis using Suc f by simp
    qed
  qed
qed

lemma for_of_batchedLogits_Returned:
  "fst (for_of_batchedLogits ps input_ids rows) = Returned \<Longrightarrow>
   for_of_batchedLogits ps input_ids rows =
     (Returned, map (\<lambda>logits. foldl (\<lambda>data func. snd (func input_ids data)) logits ps) rows) \<and>
   (\<forall>logits \<in> set rows. fst (forEach ps input_ids logits) = Returned)"
proof (induction rows)
  case Nil
  then show ?case by simp
next
  case (Cons logits rows)
  obtain c logits' where f: "forEach ps input_ids logits = (c, logits')"
    by (cases "forEach ps input_ids logits")
  show ?case
  proof (cases c)
    case (Threw e)
    then show ?thesis using Cons.prems f by simp
  next
    case Returned
    have fr: "fst (forEach ps input_ids logits) = Returned" using f Returned by simp
    have l: "logits' = foldl (\<lambda>data func. snd (func input_ids data)) logits ps"
      using forEach_Returned [OF fr] f by simp
    have "fst (for_of_batchedLogits ps input_ids rows) = Returned"
      using Cons.prems f Returned by (simp split: prod.splits)
    from Cons.IH [OF this] show ?thesis
      using f Returned l fr by simp
  qed
qed

lemma length_for_of_batchedLogits:
  "length (snd (for_of_batchedLogits ps input_ids rows)) = length rows"
  by (induction rows) (auto split: prod.splits completion.splits)

text \<open>The other way round: the loop over the processors returns when each processor
  returns on the buffer it is given.\<close>

lemma forEach_reached:
  "\<forall>k < length ps.
     fst ((ps ! k) input_ids
            (foldl (\<lambda>data func. snd (func input_ids data)) logits (take k ps))) = Returned \<Longrightarrow>
   fst (forEach ps input_ids logits) = Returned"
proof (induction ps arbitrary: logits)
  case Nil
  then show ?case by simp
next
  case (Cons func rest)
  have "fst (func input_ids logits) = Returned"
    using Cons.prems [rule_format, of 0] by simp
  then obtain logits' where f: "func input_ids logits = (Returned, logits')"
    by (cases "func input_ids logits") auto
  have "\<forall>k < length rest.
     fst ((rest ! k) input_ids
            (foldl (\<lambda>data func. snd (func input_ids data)) logits' (take k rest))) = Returned"
  proof (intro allI impI)
    fix k assume "k < length rest"
    then show "fst ((rest ! k) input_ids
            (foldl (\<lambda>data func. snd (func input_ids data)) logits' (take k rest))) = Returned"
      using Cons.prems [rule_format, of "Suc k"] f by simp
  qed
  from Cons.IH [OF this] show ?case using f by simp
qed

text \<open>
  Claim C1. \<open>push\<close> and \<open>extend\<close> append to the processors, so their order is the
  order of insertion. When the call returns, row \<open>i\<close> of the batch afterwards is row
  \<open>i\<close> before with the processors applied one after the other in that order, each to
  the buffer the one before has left; a row depends on no other row; every processor
  was called on every row, with the one \<open>input_ids\<close> of the call, and returned.
\<close>

theorem LogitsProcessorList_call_applies_in_order:
  assumes "fst (LogitsProcessorList_call this input_ids batchedLogits) = Returned"
  shows "processors (push this item) = processors this @ [item] \<and>
    processors (extend this items) = processors this @ items \<and>
    LogitsProcessorList_call this input_ids batchedLogits =
      (Returned,
       map (\<lambda>logits. foldl (\<lambda>data func. snd (func input_ids data)) logits (processors this))
         batchedLogits) \<and>
    (\<forall>logits \<in> set batchedLogits. \<forall>k < length (processors this).
       fst ((processors this ! k) input_ids
              (foldl (\<lambda>data func. snd (func input_ids data)) logits
                 (take k (processors this)))) = Returned)"
proof -
  have r: "fst (for_of_batchedLogits (processors this) input_ids batchedLogits) = Returned"
    using assms by (simp add: LogitsProcessorList_call_def)
  note all = for_of_batchedLogits_Returned [OF r]
  have "\<forall>logits \<in> set batchedLogits. \<forall>k < length (processors this).
       fst ((processors this ! k) input_ids
              (foldl (\<lambda>data func. snd (func input_ids data)) logits
                 (take k (processors this)))) = Returned"
    using all forEach_invocations_returned by blast
  then show ?thesis
    using all by (simp add: push_def extend_def LogitsProcessorList_call_def)
qed

theorem LogitsProcessorList_call_applies_in_order_witness:
  "LogitsProcessorList_call
     (extend (push LogitsProcessorList_constructor (RepetitionPenalty_call (Fin 2)))
        [RepetitionPenalty_call (Fin (- 1))])
     [0] [[Fin 4, Fin 1], [Fin (- 3), Fin 1]] =
   (Returned, [[Fin (- 2), Fin 1], [Fin 6, Fin 1]]) \<and>
   LogitsProcessorList_call
     (push LogitsProcessorList_constructor
        (WhisperTimeStamp_call
           \<lparr>log_softmax = (\<lambda>d. d), Math_exp = (\<lambda>x. x), Math_log = (\<lambda>x. x)\<rparr>
           \<lparr>eos_token_id = 0, no_timestamps_token_id = 1, timestamp_begin = 2,
            begin_index = 3, max_initial_timestamp_index = Val 1\<rparr>))
     [7, 7, 7, 3] [[Fin 1, Fin 2, Fin 3, Fin 4]] =
   (Returned, [[Fin 1, NInf, NInf, NInf]])"
proof -
  let ?chain = "extend (push LogitsProcessorList_constructor (RepetitionPenalty_call (Fin 2)))
        [RepetitionPenalty_call (Fin (- 1))]"
  let ?w = "WhisperTimeStamp_call
           \<lparr>log_softmax = (\<lambda>d. d), Math_exp = (\<lambda>x. x), Math_log = (\<lambda>x. x)\<rparr>
           \<lparr>eos_token_id = 0, no_timestamps_token_id = 1, timestamp_begin = 2,
            begin_index = 3, max_initial_timestamp_index = Val 1\<rparr>"
  have ps: "processors ?chain =
     [RepetitionPenalty_call (Fin 2), RepetitionPenalty_call (Fin (- 1))]"
    by (simp add: extend_def push_def LogitsProcessorList_constructor_def)
  have h: "fst (LogitsProcessorList_call ?chain [0] [[Fin 4, Fin 1], [Fin (- 3), Fin 1]]) =
      Returned"
    by (simp add: LogitsProcessorList_call_def ps RepetitionPenalty_call_def)
  have first: "LogitsProcessorList_call ?chain [0] [[Fin 4, Fin 1], [Fin (- 3), Fin 1]] =
      (Returned, [[Fin (- 2), Fin 1], [Fin 6, Fin 1]])"
    using LogitsProcessorList_call_applies_in_order
      [OF h, of LogitsProcessor_call "[]"]
    by (simp add: ps RepetitionPenalty_call_def penalise_at_def typed_set_def penalise_def)
  let ?p = "\<lparr>eos_token_id = 0, no_timestamps_token_id = 1, timestamp_begin = 2,
            begin_index = 3, max_initial_timestamp_index = Val 1\<rparr>"
  have w1: "suppress_no_timestamps ?p [Fin 1, Fin 2, Fin 3, Fin 4] =
      [Fin 1, NInf, Fin 3, Fin 4]"
    by (simp add: suppress_no_timestamps_def typed_set_def)
  have w2: "pairing_step ?p [7, 7, 7, 3] [Fin 1, NInf, Fin 3, Fin 4] =
      [Fin 1, NInf, NInf, NInf]"
    by (simp add: pairing_step_def slice_from_drop [of _ 3, simplified]
        last_was_timestamp_def penultimate_was_timestamp_def subarray_from_fill_def
        subarray_fill_Cons subarray_fill_Nil Let_def)
  have w3: "max_initial_timestamp_step ?p [7, 7, 7, 3] [Fin 1, NInf, NInf, NInf] =
      [Fin 1, NInf, NInf, NInf]"
    by (simp add: max_initial_timestamp_step_def)
  have w4: "probability_mass_step
      \<lparr>log_softmax = (\<lambda>d. d), Math_exp = (\<lambda>x. x), Math_log = (\<lambda>x. x)\<rparr> ?p
      [Fin 1, NInf, NInf, NInf] = (Returned, [Fin 1, NInf, NInf, NInf])"
    by (simp add: probability_mass_step_def Math_max_def js_max2_def js_gt_def Let_def
        numeral_2_eq_2)
  have w: "?w [7, 7, 7, 3] [Fin 1, Fin 2, Fin 3, Fin 4] = (Returned, [Fin 1, NInf, NInf, NInf])"
    unfolding WhisperTimeStamp_call_def Let_def w1 w2 w3 w4 by simp
  have pw: "processors (push LogitsProcessorList_constructor ?w) = [?w]"
    by (simp add: push_def LogitsProcessorList_constructor_def)
  have hw: "fst (LogitsProcessorList_call (push LogitsProcessorList_constructor ?w)
      [7, 7, 7, 3] [[Fin 1, Fin 2, Fin 3, Fin 4]]) = Returned"
    by (simp only: LogitsProcessorList_call_def pw for_of_batchedLogits.simps forEach.simps w
        prod.case completion.case fst_conv)
  have second: "LogitsProcessorList_call (push LogitsProcessorList_constructor ?w)
      [7, 7, 7, 3] [[Fin 1, Fin 2, Fin 3, Fin 4]] = (Returned, [[Fin 1, NInf, NInf, NInf]])"
    using LogitsProcessorList_call_applies_in_order
      [OF hw, of LogitsProcessor_call "[]"]
    by (simp only: pw list.map foldl.simps w snd_conv)
  show ?thesis using first second by simp
qed

section \<open>NoRepeatNGram: results\<close>

lemma slice_butlast: "slice g 0 (int (length g) - 1) = butlast g"
  by (cases g rule: rev_cases)
     (simp_all add: slice_def slice_bound_def Let_def)

lemma elem_at_last: "g \<noteq> [] \<Longrightarrow> elem_at g (int (length g) - 1) = Some (last g)"
  by (cases g rule: rev_cases) (simp_all add: elem_at_def nat_diff_distrib)

lemma slice_to_end: "0 \<le> k \<Longrightarrow> slice xs k (int (length xs)) = drop (nat k) xs"
  by (cases "nat k \<le> length xs") (simp_all add: slice_def slice_bound_def Let_def min_def)

lemma slice_suffix:
  assumes "n \<le> length xs + 1" "1 \<le> n"
  shows "slice xs (int (length xs) + 1 - int n) (int (length xs)) =
         drop (length xs - (n - 1)) xs"
proof -
  have "0 \<le> int (length xs) + 1 - int n"
    using assms by simp
  moreover have "nat (int (length xs) + 1 - int n) = length xs - (n - 1)"
    using assms by simp
  ultimately show ?thesis
    by (simp only: slice_to_end)
qed

lemma window_take_drop:
  "j + n \<le> length xs \<Longrightarrow> map (\<lambda>k. xs ! (j + k)) [0..<n] = take n (drop j xs)"
  by (rule nth_equalityI) simp_all

lemma ngrams_of_windows:
  "ngrams_of n xs = map (\<lambda>j. take n (drop j xs)) [0..<length xs + 1 - n]"
  unfolding ngrams_of_def
  by (rule map_cong) (simp_all add: window_take_drop)

text \<open>\<open>JSON.stringify\<close> tells any two arrays of token ids apart.\<close>

lemma of_char_digit_char: "d < 10 \<Longrightarrow> (of_char (digit_char d) :: nat) = 48 + d"
  by (simp add: digit_char_def)

lemma decimal_small: "n < 10 \<Longrightarrow> decimal n = [digit_char n]"
  by (subst decimal.simps) simp

lemma decimal_large:
  "\<not> n < 10 \<Longrightarrow> decimal n = decimal (n div 10) @ [digit_char (n mod 10)]"
  by (subst decimal.simps) simp

lemma decimal_value_snoc:
  "decimal_value (s @ [c]) = 10 * decimal_value s + (of_char c - 48)"
  by (simp add: decimal_value_def)

lemma decimal_value_decimal: "decimal_value (decimal n) = n"
proof (induction n rule: decimal.induct)
  case (1 n)
  show ?case
  proof (cases "n < 10")
    case True
    then show ?thesis
      using decimal_value_snoc [of "[]" "digit_char n"]
      by (simp add: decimal_small of_char_digit_char decimal_value_def)
  next
    case False
    have ih: "decimal_value (decimal (n div 10)) = n div 10"
      using "1.IH" False by simp
    have "decimal_value (decimal n) =
        10 * decimal_value (decimal (n div 10)) + (of_char (digit_char (n mod 10)) - 48)"
      by (simp only: decimal_large [OF False] decimal_value_snoc)
    also have "\<dots> = 10 * (n div 10) + n mod 10"
      by (simp add: ih of_char_digit_char)
    also have "\<dots> = n" by simp
    finally show ?thesis .
  qed
qed

lemma decimal_inj: "decimal m = decimal n \<Longrightarrow> m = n"
  by (metis decimal_value_decimal)

lemma digit_char_not_comma: "d < 10 \<Longrightarrow> digit_char d \<noteq> CHR '',''"
proof
  assume d: "d < 10" and "digit_char d = CHR '',''"
  then have "(of_char (digit_char d) :: nat) = of_char (CHR '','')" by simp
  then show False using d by (simp add: of_char_digit_char)
qed

lemma decimal_no_comma: "CHR '','' \<notin> set (decimal n)"
proof (induction n rule: decimal.induct)
  case (1 n)
  show ?case
  proof (cases "n < 10")
    case True
    then show ?thesis
      using digit_char_not_comma [of n] by (auto simp: decimal_small)
  next
    case False
    have "n mod 10 < 10" by simp
    then show ?thesis
      using "1.IH" [OF False] digit_char_not_comma [of "n mod 10"]
      by (auto simp: decimal_large [OF False])
  qed
qed

lemma decimal_not_Nil: "decimal n \<noteq> []"
  by (cases "n < 10") (simp_all add: decimal_small decimal_large)

lemma join_commas_Cons:
  "join_commas (x # xs) = (if xs = [] then x else x @ CHR '','' # join_commas xs)"
  by (cases xs) simp_all

lemma takeWhile_no_comma:
  "CHR '','' \<notin> set x \<Longrightarrow> takeWhile (\<lambda>c. c \<noteq> CHR '','') (x @ CHR '','' # r) = x"
  by (induction x) auto

lemma join_commas_inj:
  assumes "\<forall>x \<in> set xs. x \<noteq> [] \<and> CHR '','' \<notin> set x"
    and "\<forall>y \<in> set ys. y \<noteq> [] \<and> CHR '','' \<notin> set y"
    and "join_commas xs = join_commas ys"
  shows "xs = ys"
  using assms
proof (induction xs arbitrary: ys)
  case Nil
  then show ?case by (cases ys) (auto simp: join_commas_Cons split: if_splits)
next
  case (Cons x xs)
  show ?case
  proof (cases ys)
    case Nil
    then show ?thesis using Cons.prems by (auto simp: join_commas_Cons split: if_splits)
  next
    case ys: (Cons y ys')
    have x: "x \<noteq> []" "CHR '','' \<notin> set x" using Cons.prems(1) by auto
    have y: "y \<noteq> []" "CHR '','' \<notin> set y" using Cons.prems(2) ys by auto
    have eq: "join_commas (x # xs) = join_commas (y # ys')" using Cons.prems(3) ys by simp
    show ?thesis
    proof (cases "xs = []")
      case xe: True
      show ?thesis
      proof (cases "ys' = []")
        case True
        then show ?thesis using eq xe ys by simp
      next
        case False
        then have "x = y @ CHR '','' # join_commas ys'"
          using eq xe by (simp add: join_commas_Cons)
        then have "CHR '','' \<in> set x" by simp
        then show ?thesis using x by simp
      qed
    next
      case xne: False
      show ?thesis
      proof (cases "ys' = []")
        case True
        then have "y = x @ CHR '','' # join_commas xs"
          using eq xne by (simp add: join_commas_Cons)
        then have "CHR '','' \<in> set y" by simp
        then show ?thesis using y by simp
      next
        case False
        have e: "x @ CHR '','' # join_commas xs = y @ CHR '','' # join_commas ys'"
          using eq xne False by (simp add: join_commas_Cons)
        have "takeWhile (\<lambda>c. c \<noteq> CHR '','') (x @ CHR '','' # join_commas xs) = x"
          using x(2) by (rule takeWhile_no_comma)
        moreover have "takeWhile (\<lambda>c. c \<noteq> CHR '','') (y @ CHR '','' # join_commas ys') = y"
          using y(2) by (rule takeWhile_no_comma)
        ultimately have xy: "x = y" using e by simp
        then have "join_commas xs = join_commas ys'" using e by simp
        moreover have "\<forall>x \<in> set xs. x \<noteq> [] \<and> CHR '','' \<notin> set x" using Cons.prems(1) by simp
        moreover have "\<forall>y \<in> set ys'. y \<noteq> [] \<and> CHR '','' \<notin> set y"
          using Cons.prems(2) ys by simp
        ultimately have "xs = ys'" using Cons.IH by blast
        then show ?thesis using xy ys by simp
      qed
    qed
  qed
qed

lemma JSON_stringify_inj: "JSON_stringify xs = JSON_stringify ys \<longleftrightarrow> xs = ys"
proof
  assume "JSON_stringify xs = JSON_stringify ys"
  then have "join_commas (map decimal xs) = join_commas (map decimal ys)"
    by (simp add: JSON_stringify_def)
  then have "map decimal xs = map decimal ys"
    by (intro join_commas_inj) (auto simp: decimal_not_Nil decimal_no_comma)
  then show "xs = ys"
    by (simp add: inj_on_def decimal_inj inj_map_eq_map [of decimal] )
qed simp

lemma or_nil_None: "or_nil None = []"
  by (simp add: or_nil_def)

lemma or_nil_record_ngram:
  "or_nil (record_ngram m g (JSON_stringify k)) =
     or_nil (m (JSON_stringify k)) @
       (if butlast g = k then [elem_at g (int (length g) - 1)] else [])"
  by (simp add: record_ngram_def slice_butlast Let_def or_nil_def JSON_stringify_inj)

lemma or_nil_foldl_record_ngram:
  "or_nil (foldl record_ngram m gs (JSON_stringify k)) =
     or_nil (m (JSON_stringify k)) @
       map (\<lambda>g. elem_at g (int (length g) - 1)) (filter (\<lambda>g. butlast g = k) gs)"
proof (induction gs arbitrary: m)
  case Nil
  then show ?case by simp
next
  case (Cons g gs)
  show ?case
    by (simp add: Cons.IH or_nil_record_ngram)
qed

lemma or_nil_getNgrams:
  "or_nil (getNgrams n xs (JSON_stringify k)) =
     map (\<lambda>g. elem_at g (int (length g) - 1))
       (filter (\<lambda>g. butlast g = k) (ngrams_of n xs))"
  by (simp add: getNgrams_def or_nil_foldl_record_ngram or_nil_None)

lemma calcBannedNgramTokens_short:
  "length xs + 1 < n \<Longrightarrow> calcBannedNgramTokens n xs = []"
  by (simp add: calcBannedNgramTokens_def)

lemma calcBannedNgramTokens_eq:
  assumes "1 \<le> n" "n \<le> length xs + 1"
  shows "calcBannedNgramTokens n xs =
     map (\<lambda>g. elem_at g (int (length g) - 1))
       (filter (\<lambda>g. butlast g = drop (length xs - (n - 1)) xs) (ngrams_of n xs))"
  using assms
  by (simp add: calcBannedNgramTokens_def getGeneratedNgrams_def Let_def slice_suffix
      or_nil_getNgrams)

lemma set_calcBannedNgramTokens:
  assumes "1 \<le> n"
  shows "set (calcBannedNgramTokens n xs) =
     Some ` {t. \<exists>j. j + n \<le> length xs \<and>
                    take (n - 1) (drop j xs) = drop (length xs - (n - 1)) xs \<and>
                    t = xs ! (j + (n - 1))}"
proof (cases "n \<le> length xs + 1")
  case False
  then have "length xs + 1 < n" by simp
  then show ?thesis by (auto simp: calcBannedNgramTokens_short)
next
  case True
  have win: "butlast (take n (drop j xs)) = take (n - 1) (drop j xs) \<and>
             elem_at (take n (drop j xs)) (int (length (take n (drop j xs))) - 1) =
               Some (xs ! (j + (n - 1)))" if "j + n \<le> length xs" for j
  proof -
    have ne: "take n (drop j xs) \<noteq> []" using that assms by auto
    have len: "length (take n (drop j xs)) = n" using that by simp
    have "last (take n (drop j xs)) = take n (drop j xs) ! (n - 1)"
      using last_conv_nth [OF ne] len by simp
    also have "\<dots> = xs ! (j + (n - 1))"
      using that assms by simp
    finally have l: "last (take n (drop j xs)) = xs ! (j + (n - 1))" .
    have b: "butlast (take n (drop j xs)) = take (n - 1) (drop j xs)"
      using that assms by (simp add: butlast_take)
    show ?thesis
      using elem_at_last [OF ne] l b by (simp only:)
  qed
  have rng: "j < length xs + 1 - n \<longleftrightarrow> j + n \<le> length xs" for j
    using True by auto
  let ?suffix = "drop (length xs - (n - 1)) xs"
  let ?J = "{j. j + n \<le> length xs \<and> take (n - 1) (drop j xs) = ?suffix}"
  have "set (calcBannedNgramTokens n xs) =
      (\<lambda>j. elem_at (take n (drop j xs)) (int (length (take n (drop j xs))) - 1)) `
        {j \<in> {0..<length xs + 1 - n}. butlast (take n (drop j xs)) = ?suffix}"
    unfolding calcBannedNgramTokens_eq [OF assms True] ngrams_of_windows
    by (simp add: filter_map image_image o_def)
  also have "{j \<in> {0..<length xs + 1 - n}. butlast (take n (drop j xs)) = ?suffix} = ?J"
    using win rng by auto
  also have "(\<lambda>j. elem_at (take n (drop j xs)) (int (length (take n (drop j xs))) - 1)) ` ?J =
      (\<lambda>j. Some (xs ! (j + (n - 1)))) ` ?J"
    by (rule image_cong [OF refl]) (use win in blast)
  also have "\<dots> = Some ` {t. \<exists>j. j + n \<le> length xs \<and>
                    take (n - 1) (drop j xs) = ?suffix \<and> t = xs ! (j + (n - 1))}"
    by (auto simp: image_iff)
  finally show ?thesis .
qed


lemma length_ban_tokens: "length (ban_tokens tokens data) = length data"
  by (induction tokens arbitrary: data) (simp_all add: length_typed_set split: option.splits)

lemma nth_ban_tokens:
  "i < length data \<Longrightarrow>
   ban_tokens tokens data ! i = (if Some i \<in> set tokens then NInf else data ! i)"
proof (induction tokens arbitrary: data)
  case Nil
  then show ?case by simp
next
  case (Cons token rest)
  show ?case
  proof (cases token)
    case None
    then show ?thesis using Cons.IH [OF Cons.prems] by simp
  next
    case (Some t)
    have "i < length (typed_set data t NInf)"
      using Cons.prems by (simp add: length_typed_set)
    from Cons.IH [OF this] show ?thesis
      using Some Cons.prems by (simp add: nth_typed_set)
  qed
qed

lemma calcBannedNgramTokens_example: "calcBannedNgramTokens 2 [5, 3, 5, 3] = [Some 5]"
  by (simp add: calcBannedNgramTokens_def getGeneratedNgrams_def getNgrams_def ngrams_of_def
      record_ngram_def slice_def slice_bound_def elem_at_def or_nil_def Let_def upt_rec
      JSON_stringify_inj)

text \<open>
  Claim C7. For \<open>n \<ge> 1\<close> the banned tokens are the tokens that close a window of \<open>n\<close>
  consecutive ids of the history whose first \<open>n - 1\<close> ids are, as a sequence, the last
  \<open>n - 1\<close> ids of the history. The call returns with the entries of the buffer at the
  banned tokens negative infinity and every other entry as it was. With fewer than
  \<open>n - 1\<close> ids in the history nothing is banned, and with \<open>n = 2\<close> and the history
  \<open>[5, 3, 5, 3]\<close> the one banned token is 5.
\<close>

theorem NoRepeatNGram_call_bans:
  assumes "1 \<le> n"
  shows "set (calcBannedNgramTokens n input_ids) =
      Some ` {t. \<exists>j. j + n \<le> length input_ids \<and>
                     take (n - 1) (drop j input_ids) =
                       drop (length input_ids - (n - 1)) input_ids \<and>
                     t = input_ids ! (j + (n - 1))} \<and>
    fst (NoRepeatNGram_call n input_ids logits) = Returned \<and>
    length (snd (NoRepeatNGram_call n input_ids logits)) = length logits \<and>
    (\<forall>i < length logits.
       snd (NoRepeatNGram_call n input_ids logits) ! i =
         (if Some i \<in> set (calcBannedNgramTokens n input_ids) then NInf else logits ! i)) \<and>
    (length input_ids + 1 < n \<longrightarrow>
       calcBannedNgramTokens n input_ids = [] \<and>
       NoRepeatNGram_call n input_ids logits = (Returned, logits)) \<and>
    set (calcBannedNgramTokens 2 [5, 3, 5, 3]) = {Some 5}"
proof -
  have "NoRepeatNGram_call n input_ids logits = (Returned, logits)"
    if "length input_ids + 1 < n"
    using that by (simp add: NoRepeatNGram_call_def calcBannedNgramTokens_short)
  then show ?thesis
    using set_calcBannedNgramTokens [OF assms, of input_ids]
    by (simp add: NoRepeatNGram_call_def length_ban_tokens nth_ban_tokens
        calcBannedNgramTokens_short calcBannedNgramTokens_example)
qed

theorem NoRepeatNGram_call_bans_witness:
  "snd (NoRepeatNGram_call 2 [5, 3, 5, 3]
          [Fin 0, Fin 1, Fin 2, Fin 3, Fin 4, Fin 5, Fin 6]) ! 5 = NInf \<and>
   snd (NoRepeatNGram_call 2 [5, 3, 5, 3]
          [Fin 0, Fin 1, Fin 2, Fin 3, Fin 4, Fin 5, Fin 6]) ! 3 = Fin 3 \<and>
   NoRepeatNGram_call 3 [5] [Fin 0, Fin 1] = (Returned, [Fin 0, Fin 1])"
proof -
  let ?logits = "[Fin 0, Fin 1, Fin 2, Fin 3, Fin 4, Fin 5, Fin 6]"
  have h: "(1::nat) \<le> 2" by simp
  note t = NoRepeatNGram_call_bans [OF h, of "[5, 3, 5, 3]" ?logits]
  from t have banned: "set (calcBannedNgramTokens 2 [5, 3, 5, 3]) = {Some 5}"
    by blast
  from t have nth: "\<forall>i < length ?logits.
       snd (NoRepeatNGram_call 2 [5, 3, 5, 3] ?logits) ! i =
         (if Some i \<in> set (calcBannedNgramTokens 2 [5, 3, 5, 3]) then NInf
          else ?logits ! i)"
    by blast
  have "snd (NoRepeatNGram_call 2 [5, 3, 5, 3] ?logits) ! 5 = NInf"
    using nth [rule_format, of 5] by (simp add: banned)
  moreover have "snd (NoRepeatNGram_call 2 [5, 3, 5, 3] ?logits) ! 3 = Fin 3"
    using nth [rule_format, of 3] by (simp add: banned)
  moreover have "NoRepeatNGram_call 3 [5] [Fin 0, Fin 1] = (Returned, [Fin 0, Fin 1])"
    using NoRepeatNGram_call_bans [of 3 "[5]" "[Fin 0, Fin 1]"] by simp
  ultimately show ?thesis by simp
qed

end
